theory Spec2Isabelle
  imports Main
begin

section \<open>Go values used by kube-endpoint-discovery\<close>

text \<open>
  Go strings are byte sequences; they are modelled as \<open>string\<close> (a list of 8-bit
  characters). A run-time panic is a value of type \<open>panic\<close>; a function that may panic
  returns \<open>panic + 'a\<close>, with \<open>Inl\<close> for the panic. The platform \<open>int\<close> is the
  64-bit one of the usual container targets.
\<close>

datatype panic = IndexOutOfRange

definition index_at :: "'a list \<Rightarrow> nat \<Rightarrow> panic + 'a" where
  \<comment> \<open>\<open>xs[i]\<close> on a slice: a nil or short slice panics.\<close>
  "index_at xs i = (if i < length xs then Inr (xs ! i) else Inl IndexOutOfRange)"

definition isDigit :: "char \<Rightarrow> bool" where
  \<comment> \<open>the class \<open>\d\<close>, and the test \<open>'0' <= c && c <= '9'\<close>\<close>
  "isDigit c = (48 \<le> (of_char c :: nat) \<and> (of_char c :: nat) \<le> 57)"

definition isWord :: "char \<Rightarrow> bool" where
  \<comment> \<open>the class \<open>\w\<close>: \<open>[0-9A-Za-z_]\<close>, ASCII only\<close>
  "isWord c = (let n = (of_char c :: nat) in
     (48 \<le> n \<and> n \<le> 57) \<or> (65 \<le> n \<and> n \<le> 90) \<or> n = 95 \<or> (97 \<le> n \<and> n \<le> 122))"

definition digit_val :: "char \<Rightarrow> nat" where
  "digit_val c = (of_char c :: nat) - 48"

definition digit_char :: "nat \<Rightarrow> char" where
  \<comment> \<open>the digit table of \<open>strconv\<close>, read below 10 only\<close>
  "digit_char n = ''0123456789'' ! n"

subsection \<open>strconv.Atoi and strconv.Itoa\<close>

text \<open>
  \<open>Atoi(s)\<close> is \<open>ParseInt(s, 10, 0)\<close> converted to \<open>int\<close>. With a syntax error the
  value is 0; with a range error it is the largest magnitude of the right sign. The scan
  of \<open>ParseUint\<close> returns as soon as it meets a character that is no digit or a value
  that overflows, whichever comes first.
\<close>

datatype num_error = ErrSyntax | ErrRange

definition maxUint64 :: nat where
  "maxUint64 = 18446744073709551615"

definition maxInt64 :: int where
  "maxInt64 = 9223372036854775807"

definition minInt64 :: int where
  "minInt64 = - 9223372036854775808"

fun parse_uint_loop :: "string \<Rightarrow> nat \<Rightarrow> nat \<times> num_error option" where
  "parse_uint_loop [] n = (n, None)"
| "parse_uint_loop (c # cs) n =
     (if \<not> isDigit c then (0, Some ErrSyntax)
      else if n \<ge> maxUint64 div 10 + 1 then (maxUint64, Some ErrRange)
      else if n * 10 + digit_val c > maxUint64 then (maxUint64, Some ErrRange)
      else parse_uint_loop cs (n * 10 + digit_val c))"

definition ParseUint :: "string \<Rightarrow> nat \<times> num_error option" where
  "ParseUint s = (if s = [] then (0, Some ErrSyntax) else parse_uint_loop s 0)"

definition ParseInt :: "string \<Rightarrow> int \<times> num_error option" where
  "ParseInt s =
     (if s = [] then (0, Some ErrSyntax)
      else
        let neg = (hd s = CHR ''-'');
            s1 = (if hd s = CHR ''+'' \<or> hd s = CHR ''-'' then tl s else s);
            (un, err) = ParseUint s1
        in if err = Some ErrSyntax then (0, err)
           else if \<not> neg \<and> int un \<ge> maxInt64 + 1 then (maxInt64, Some ErrRange)
           else if neg \<and> int un > maxInt64 + 1 then (minInt64, Some ErrRange)
           else (if neg then - int un else int un, None))"

definition Atoi :: "string \<Rightarrow> int \<times> num_error option" where
  "Atoi s = ParseInt s"

fun utoa :: "nat \<Rightarrow> string" where
  "utoa n = (if n < 10 then [digit_char n] else utoa (n div 10) @ [digit_char (n mod 10)])"

declare utoa.simps [simp del]

definition Itoa :: "int \<Rightarrow> string" where
  "Itoa i = (if i < 0 then CHR ''-'' # utoa (nat (- i)) else utoa (nat i))"

definition incr :: "int \<Rightarrow> int" where
  \<comment> \<open>\<open>index++\<close> on a 64-bit \<open>int\<close>\<close>
  "incr i = (if i = maxInt64 then minInt64 else i + 1)"

subsection \<open>regexp: the fragment the program's pattern uses\<close>

text \<open>
  A backtracking matcher with the leftmost-first priorities of Go's \<open>regexp\<close>: the
  results of \<open>rmatch\<close> are listed in the order of preference, a greedy star first tries
  one more iteration. A match state is the position in the text, the rest of the text and
  the capture groups closed so far. \<open>BeginText\<close> is \<open>^\<close> without the multi-line flag.
  None of the classes of the fragment holds a byte above 127, so matching bytes is matching
  the runes of the text.
\<close>

datatype regex = BeginText | Lit char | WordChar | DigitChar
  | Star regex | Cat regex regex | Group nat regex

type_synonym mstate = "nat \<times> string \<times> (nat \<times> string) list"

function rmatch :: "regex \<Rightarrow> mstate \<Rightarrow> mstate list" where
  "rmatch BeginText (p, s, c) = (if p = 0 then [(p, s, c)] else [])"
| "rmatch (Lit a) (p, s, c) =
     (case s of [] \<Rightarrow> [] | x # xs \<Rightarrow> if x = a then [(Suc p, xs, c)] else [])"
| "rmatch WordChar (p, s, c) =
     (case s of [] \<Rightarrow> [] | x # xs \<Rightarrow> if isWord x then [(Suc p, xs, c)] else [])"
| "rmatch DigitChar (p, s, c) =
     (case s of [] \<Rightarrow> [] | x # xs \<Rightarrow> if isDigit x then [(Suc p, xs, c)] else [])"
| "rmatch (Star r) (p, s, c) =
     concat (map (\<lambda>st'. if length (fst (snd st')) < length s then rmatch (Star r) st' else [])
                 (rmatch r (p, s, c))) @ [(p, s, c)]"
| "rmatch (Cat a b) (p, s, c) = concat (map (rmatch b) (rmatch a (p, s, c)))"
| "rmatch (Group n r) (p, s, c) =
     map (\<lambda>(p', s', c'). (p', s', (n, take (p' - p) s) # c')) (rmatch r (p, s, c))"
  by pat_completeness auto
termination
  by (relation "measures [\<lambda>(r, st). size r, \<lambda>(r, (p, s, c)). length s]") auto

definition match_here :: "regex \<Rightarrow> nat \<Rightarrow> nat \<Rightarrow> string \<Rightarrow> string list option" where
  \<comment> \<open>the preferred match starting at position \<open>p\<close>: the whole match, then each group\<close>
  "match_here re ngroups p s =
     (case rmatch re (p, s, []) of
        [] \<Rightarrow> None
      | (p', s', c') # _ \<Rightarrow>
          Some (take (p' - p) s #
                map (\<lambda>n. case map_of c' n of None \<Rightarrow> [] | Some g \<Rightarrow> g) [1..<Suc ngroups]))"

fun search :: "regex \<Rightarrow> nat \<Rightarrow> nat \<Rightarrow> string \<Rightarrow> string list" where
  \<comment> \<open>the leftmost match; the nil slice when there is none\<close>
  "search re ngroups p [] =
     (case match_here re ngroups p [] of Some m \<Rightarrow> m | None \<Rightarrow> [])"
| "search re ngroups p (x # xs) =
     (case match_here re ngroups p (x # xs) of
        Some m \<Rightarrow> m
      | None \<Rightarrow> search re ngroups (Suc p) xs)"

definition FindStringSubmatch :: "regex \<Rightarrow> nat \<Rightarrow> string \<Rightarrow> string list" where
  "FindStringSubmatch re ngroups s = search re ngroups 0 s"

subsection \<open>strings.Join\<close>

fun Join :: "string list \<Rightarrow> string \<Rightarrow> string" where
  "Join [] sep = []"
| "Join [x] sep = x"
| "Join (x # y # zs) sep = x @ sep @ Join (y # zs) sep"

subsection \<open>fmt.Printf called with a format and no operand\<close>

text \<open>
  \<open>fmt.Printf(format)\<close> copies the text up to a \<open>%\<close> and then reads a directive:
  flags, an argument index, a width, a precision, an argument index, a verb. With no
  operand to print, \<open>%%\<close> writes a percent sign and every other verb writes an error
  text; a format that ends inside a directive writes \<open>%!(NOVERB)\<close>.
\<close>

definition isFlag :: "char \<Rightarrow> bool" where
  "isFlag c = (c = CHR ''#'' \<or> c = CHR ''0'' \<or> c = CHR ''+'' \<or> c = CHR ''-'' \<or> c = CHR '' '')"

fun parsenum_loop :: "string \<Rightarrow> nat \<Rightarrow> string option" where
  \<comment> \<open>the digits of a number are skipped; \<open>None\<close> when the number is too large\<close>
  "parsenum_loop [] num = Some []"
| "parsenum_loop (c # cs) num =
     (if isDigit c
      then (if num > 1000000 then None else parsenum_loop cs (num * 10 + digit_val c))
      else Some (c # cs))"

definition parsenum :: "string \<Rightarrow> string" where
  \<comment> \<open>\<open>parsenum(format, i, end)\<close> up to the end of the format: what is left to read\<close>
  "parsenum s = (case parsenum_loop s 0 of None \<Rightarrow> [] | Some r \<Rightarrow> r)"

definition parseArgNumber :: "string \<Rightarrow> nat \<times> bool" where
  \<comment> \<open>on a text that starts with \<open>[\<close>: how many bytes the index takes, and whether it is \<open>[n]\<close>\<close>
  "parseArgNumber s =
     (if length s < 3 then (1, False)
      else
        let inner = takeWhile (\<lambda>c. c \<noteq> CHR '']'') (tl s)
        in if length inner = length (tl s) then (1, False)
           else if inner \<noteq> [] \<and> parsenum_loop inner 0 = Some [] then (length inner + 2, True)
           else (length inner + 2, False))"

definition argNumber :: "string \<Rightarrow> bool \<Rightarrow> string \<times> bool \<times> bool" where
  \<comment> \<open>the text left, \<open>goodArgNum\<close>, and whether an index was found (no operand exists, so
      every index is out of range)\<close>
  "argNumber s good =
     (if s = [] \<or> hd s \<noteq> CHR ''['' then (s, good, False)
      else let (wid, ok) = parseArgNumber s in (drop wid s, False, ok))"

definition cont_byte :: "nat \<Rightarrow> bool" where
  "cont_byte b = (128 \<le> b \<and> b \<le> 191)"

definition rune_len :: "string \<Rightarrow> nat" where
  \<comment> \<open>the length of the UTF-8 encoding at the head of the text, 0 when it is invalid\<close>
  "rune_len s =
     (case map of_char s of
        [] \<Rightarrow> 0
      | b0 # bs \<Rightarrow>
          if b0 < 128 then 1
          else if 194 \<le> b0 \<and> b0 \<le> 223 then
            (case bs of b1 # _ \<Rightarrow> if cont_byte b1 then 2 else 0 | _ \<Rightarrow> 0)
          else if 224 \<le> b0 \<and> b0 \<le> 239 then
            (case bs of
               b1 # b2 # _ \<Rightarrow>
                 if (if b0 = 224 then 160 else 128) \<le> b1 \<and> b1 \<le> (if b0 = 237 then 159 else 191)
                    \<and> cont_byte b2
                 then 3 else 0
             | _ \<Rightarrow> 0)
          else if 240 \<le> b0 \<and> b0 \<le> 244 then
            (case bs of
               b1 # b2 # b3 # _ \<Rightarrow>
                 if (if b0 = 240 then 144 else 128) \<le> b1 \<and> b1 \<le> (if b0 = 244 then 143 else 191)
                    \<and> cont_byte b2 \<and> cont_byte b3
                 then 4 else 0
             | _ \<Rightarrow> 0)
          else 0)"

definition runeError :: string where
  \<comment> \<open>U+FFFD in UTF-8\<close>
  "runeError = [char_of (239 :: nat), char_of (191 :: nat), char_of (189 :: nat)]"

definition width_stage :: "string \<Rightarrow> bool \<Rightarrow> bool \<Rightarrow> string \<times> string \<times> bool \<times> bool" where
  \<comment> \<open>the width: \<open>*\<close> asks for an operand that is not there\<close>
  "width_stage s good after =
     (if s \<noteq> [] \<and> hd s = CHR ''*'' then (''%!(BADWIDTH)'', tl s, good, False)
      else if after \<and> s \<noteq> [] \<and> isDigit (hd s) then ([], parsenum s, False, after)
      else ([], parsenum s, good, after))"

definition prec_stage :: "string \<Rightarrow> bool \<Rightarrow> bool \<Rightarrow> string \<times> string \<times> bool \<times> bool" where
  \<comment> \<open>the precision, after a dot\<close>
  "prec_stage s good after =
     (if s \<noteq> [] \<and> hd s = CHR ''.'' then
        (let (t, goodp, afterp) = argNumber (tl s) (good \<and> \<not> after)
         in if t \<noteq> [] \<and> hd t = CHR ''*'' then (''%!(BADPREC)'', tl t, goodp, False)
            else ([], parsenum t, goodp, afterp))
      else ([], s, good, after))"

definition verb_stage :: "string \<Rightarrow> bool \<Rightarrow> string \<times> string \<times> bool" where
  \<comment> \<open>the verb is a rune; the text written, the format left, whether the format ended\<close>
  "verb_stage s good =
     (if s = [] then (''%!(NOVERB)'', [], True)
      else
        let n = rune_len s;
            verb = (if n = 0 then runeError else take n s);
            rest = (if n = 0 then tl s else drop n s)
        in if verb = ''%'' then (''%'', rest, False)
           else if \<not> good then (''%!'' @ verb @ ''(BADINDEX)'', rest, False)
           else (''%!'' @ verb @ ''(MISSING)'', rest, False))"

definition directive :: "string \<Rightarrow> string \<times> string \<times> bool" where
  \<comment> \<open>one directive, read after its \<open>%\<close>: the text written, the format left, and whether
      the format ended inside the directive\<close>
  "directive d =
     (let (s2, good2, after2) = argNumber (dropWhile isFlag d) True;
          (out3, s3, good3, after3) = width_stage s2 good2 after2;
          (out4, s4, good4, after4) = prec_stage s3 good3 after3;
          (s5, good5, after5) = (if after4 then (s4, good4, after4) else argNumber s4 good4);
          (out6, s6, stop) = verb_stage s5 good5
      in (out3 @ out4 @ out6, s6, stop))"

lemma length_parsenum_loop: "parsenum_loop s n = Some r \<Longrightarrow> length r \<le> length s"
  by (induction s arbitrary: n) (auto split: if_splits intro: le_SucI)

lemma length_parsenum: "length (parsenum s) \<le> length s"
  by (auto simp: parsenum_def length_parsenum_loop split: option.splits)

lemma length_argNumber: "argNumber s g = (t, a, b) \<Longrightarrow> length t \<le> length s"
  by (auto simp: argNumber_def split: prod.splits if_splits)

lemma length_width_stage: "width_stage s g a = (out, t, g', a') \<Longrightarrow> length t \<le> length s"
  using length_parsenum[of s] by (auto simp: width_stage_def split: if_splits)

lemma length_prec_stage: "prec_stage s g a = (out, t, g', a') \<Longrightarrow> length t \<le> length s"
proof (cases "s \<noteq> [] \<and> hd s = CHR ''.''")
  case False
  assume "prec_stage s g a = (out, t, g', a')"
  with False show ?thesis by (auto simp: prec_stage_def)
next
  case True
  assume eq: "prec_stage s g a = (out, t, g', a')"
  obtain u gp ap where arg: "argNumber (tl s) (g \<and> \<not> a) = (u, gp, ap)"
    by (cases "argNumber (tl s) (g \<and> \<not> a)") auto
  have u: "length u \<le> length (tl s)"
    using length_argNumber[OF arg] .
  have "length t \<le> length u"
    using eq True arg length_parsenum[of u]
    by (auto simp: prec_stage_def split: if_splits)
  with u show ?thesis by simp
qed

lemma length_verb_stage: "verb_stage s g = (out, t, stop) \<Longrightarrow> length t \<le> length s"
  by (auto simp: verb_stage_def Let_def split: if_splits)

lemma length_directive: "length (fst (snd (directive d))) \<le> length d"
proof -
  obtain s2 g2 a2 where e2: "argNumber (dropWhile isFlag d) True = (s2, g2, a2)"
    by (cases "argNumber (dropWhile isFlag d) True") auto
  obtain o3 s3 g3 a3 where e3: "width_stage s2 g2 a2 = (o3, s3, g3, a3)"
    by (cases "width_stage s2 g2 a2") auto
  obtain o4 s4 g4 a4 where e4: "prec_stage s3 g3 a3 = (o4, s4, g4, a4)"
    by (cases "prec_stage s3 g3 a3") auto
  obtain s5 g5 a5 where
    e5: "(if a4 then (s4, g4, a4) else argNumber s4 g4) = (s5, g5, a5)"
    by (cases "if a4 then (s4, g4, a4) else argNumber s4 g4") auto
  obtain o6 s6 stop where e6: "verb_stage s5 g5 = (o6, s6, stop)"
    by (cases "verb_stage s5 g5") auto
  have "length s2 \<le> length d"
    using length_argNumber[OF e2] length_dropWhile_le[of isFlag d] by simp
  moreover have "length s3 \<le> length s2"
    using length_width_stage[OF e3] .
  moreover have "length s4 \<le> length s3"
    using length_prec_stage[OF e4] .
  moreover have "length s5 \<le> length s4"
    using e5 length_argNumber[of s4 g4 s5 g5 a5] by (auto split: if_splits)
  moreover have "length s6 \<le> length s5"
    using length_verb_stage[OF e6] .
  moreover have "fst (snd (directive d)) = s6"
    by (simp add: directive_def e2 e3 e4 e5 e6)
  ultimately show ?thesis by simp
qed

function doPrintf0 :: "string \<Rightarrow> string" where
  "doPrintf0 s =
     (case dropWhile (\<lambda>c. c \<noteq> CHR ''%'') s of
        [] \<Rightarrow> s
      | x # d \<Rightarrow>
          takeWhile (\<lambda>c. c \<noteq> CHR ''%'') s @ fst (directive d) @
          (if snd (snd (directive d)) then [] else doPrintf0 (fst (snd (directive d)))))"
  by pat_completeness auto
termination
proof (relation "measure length")
  show "wf (measure length)" by simp
next
  fix s :: string and x d
  assume "dropWhile (\<lambda>c. c \<noteq> CHR ''%'') s = x # d"
  then have "length d < length s"
    by (metis length_dropWhile_le length_Cons less_Suc_eq_le not_less)
  then show "(fst (snd (directive d)), s) \<in> measure length"
    using length_directive[of d] by simp
qed

declare doPrintf0.simps [simp del]

section \<open>The program\<close>

subsection \<open>Endpoints, as the program reads them\<close>

record EndpointAddress =
  IP :: string
  Hostname :: string

record EndpointSubset =
  Addresses :: "EndpointAddress list"
  NotReadyAddresses :: "EndpointAddress list"

record Endpoints =
  Subsets :: "EndpointSubset list"

subsection \<open>getHostnames, getFqdn\<close>

definition getHostnames :: "EndpointSubset list \<Rightarrow> string list" where
  \<comment> \<open>two nested \<open>range\<close> loops, each step appends one hostname\<close>
  "getHostnames subsets =
     foldl (\<lambda>hostnames ss. foldl (\<lambda>hs dns. hs @ [Hostname dns]) hostnames (Addresses ss))
           [] subsets"

definition getFqdn :: "string list \<Rightarrow> string \<Rightarrow> string \<Rightarrow> string \<Rightarrow> string list" where
  "getFqdn hostnames namespaceName serviceName domainName =
     foldl (\<lambda>fqdns hostname.
              fqdns @ [hostname @ ''.'' @ serviceName @ ''.'' @ namespaceName @ ''.'' @ domainName])
           [] hostnames"

subsection \<open>getNodeIndex\<close>

definition nodeRe :: regex where
  \<comment> \<open>\<open>regexp.MustCompile(`(^\w*)-(\d)`)\<close>\<close>
  "nodeRe = Cat (Cat (Group 1 (Cat BeginText (Star WordChar))) (Lit CHR ''-'')) (Group 2 DigitChar)"

definition getNodeIndex :: "string \<Rightarrow> panic + string" where
  "getNodeIndex node =
     (case index_at (FindStringSubmatch nodeRe 2 node) 2 of
        Inl p \<Rightarrow> Inl p
      | Inr digit \<Rightarrow> Inr (Itoa (incr (fst (Atoi digit)))))"

subsection \<open>formatOutput\<close>

text \<open>
  Standard output is the text written so far; \<open>formatOutput\<close> takes it and returns it
  extended, with \<open>Inl\<close> when a panic ended the function. The operands of a \<open>Printf\<close>
  are evaluated before it writes, so a panic of \<open>getNodeIndex\<close> comes before the line of
  its host. Under a constant format a \<open>%s\<close> writes its string operand as it is; only
  the default branch hands text that is not constant to \<open>Printf\<close> as the format.
\<close>

fun zookeeper_lines :: "string list \<Rightarrow> string \<Rightarrow> (panic + unit) \<times> string" where
  "zookeeper_lines [] out = (Inr (), out)"
| "zookeeper_lines (host # rest) out =
     (case getNodeIndex host of
        Inl p \<Rightarrow> (Inl p, out)
      | Inr idx \<Rightarrow>
          zookeeper_lines rest (out @ ''server'' @ idx @ '':'' @ host @ '':2888:3888'' @ [CHR 0x0A]))"

definition formatOutput :: "string list \<Rightarrow> string \<Rightarrow> string \<Rightarrow> (panic + unit) \<times> string" where
  "formatOutput result format out =
     (if format = ''zookeeper'' then zookeeper_lines result out
      else if format = ''elasticsearch'' then
        (Inr (), out @ ''discovery.zen.ping.unicast.hosts: ['' @ Join result '', '' @ '']'' @ [CHR 0x0A])
      else (Inr (), out @ doPrintf0 (Join result '', '')))"

subsection \<open>The polling loop of main\<close>

text \<open>
  The loop reads a monotonic clock, asks the cluster for the endpoints and sleeps. What
  the cluster answers and how long a call takes is the environment's: \<open>env i\<close> says, for
  the \<open>i\<close>-th iteration, the outcome of \<open>Get\<close>, the time it took and by how much
  \<open>time.Sleep\<close> overslept (it pauses for at least the duration asked). Times are in
  nanoseconds, as \<open>time.Duration\<close>; \<open>el\<close> is \<open>time.Since(t)\<close> when the condition of
  the loop is evaluated. Every call of \<open>Get\<close> is taken to return. A \<open>continue\<close>
  runs the post statement of the loop, the sleep; a \<open>break\<close> does not. The lines of
  \<open>glog\<close> do not go to standard output and are left out.
\<close>

datatype fetch_error = FetchError

record tick =
  fetched :: "fetch_error + Endpoints"
  fetch_ns :: nat
  oversleep_ns :: nat

record config =
  namespaceName :: string
  serviceName :: string
  domainName :: string
  count :: int

record poll_result =
  res_hosts :: "string list"
  res_fetches :: nat
  res_elapsed :: nat
  res_broke :: bool

definition Second :: nat where
  "Second = 1000000000"

definition Minute :: nat where
  "Minute = 60 * Second"

definition fqdns_of :: "config \<Rightarrow> Endpoints \<Rightarrow> string list" where
  \<comment> \<open>\<open>getFqdn(getHostnames(endpoints.Subsets), namespaceName, serviceName, domainName)\<close>\<close>
  "fqdns_of cfg endpoints =
     getFqdn (getHostnames (Subsets endpoints))
       (namespaceName cfg) (serviceName cfg) (domainName cfg)"

definition quorum_reached :: "config \<Rightarrow> string list \<Rightarrow> bool" where
  \<comment> \<open>\<open>len(hosts) > 0 && len(hosts) == count\<close>\<close>
  "quorum_reached cfg hosts = (length hosts > 0 \<and> int (length hosts) = count cfg)"

function poll_loop :: "(nat \<Rightarrow> tick) \<Rightarrow> config \<Rightarrow> nat \<Rightarrow> nat \<Rightarrow> string list \<Rightarrow> poll_result" where
  "poll_loop env cfg i el hosts =
     (if el < 5 * Minute then
        (case fetched (env i) of
           Inl err \<Rightarrow>
             poll_loop env cfg (Suc i)
               (el + fetch_ns (env i) + (10 * Second + oversleep_ns (env i))) hosts
         | Inr endpoints \<Rightarrow>
             let hosts' = fqdns_of cfg endpoints
             in if quorum_reached cfg hosts'
                then \<lparr>res_hosts = hosts', res_fetches = Suc i,
                      res_elapsed = el + fetch_ns (env i), res_broke = True\<rparr>
                else poll_loop env cfg (Suc i)
                       (el + fetch_ns (env i) + (10 * Second + oversleep_ns (env i))) hosts')
      else \<lparr>res_hosts = hosts, res_fetches = i, res_elapsed = el, res_broke = False\<rparr>)"
  by pat_completeness auto
termination
  by (relation "measure (\<lambda>(env, cfg, i, el, hosts). 5 * Minute - el)")
     (auto simp: Minute_def Second_def)

declare poll_loop.simps [simp del]

definition poll :: "(nat \<Rightarrow> tick) \<Rightarrow> config \<Rightarrow> poll_result" where
  \<comment> \<open>the loop as main starts it: \<open>hosts := []string{}\<close>, \<open>t := time.Now()\<close>\<close>
  "poll env cfg = poll_loop env cfg 0 0 []"

fun start_time :: "(nat \<Rightarrow> tick) \<Rightarrow> nat \<Rightarrow> nat" where
  \<comment> \<open>\<open>time.Since(t)\<close> when the condition is evaluated for the \<open>j\<close>-th time, every
      earlier iteration having fetched and slept\<close>
  "start_time env 0 = 0"
| "start_time env (Suc j) =
     start_time env j + fetch_ns (env j) + (10 * Second + oversleep_ns (env j))"

fun hosts_upto :: "config \<Rightarrow> (nat \<Rightarrow> tick) \<Rightarrow> nat \<Rightarrow> string list" where
  \<comment> \<open>the reference for the list kept by the loop: after \<open>n\<close> iterations it is the
      list of the last fetch that succeeded, the empty list when none did\<close>
  "hosts_upto cfg env 0 = []"
| "hosts_upto cfg env (Suc n) =
     (case fetched (env n) of
        Inl err \<Rightarrow> hosts_upto cfg env n
      | Inr endpoints \<Rightarrow> fqdns_of cfg endpoints)"

definition quorum_target :: "string \<Rightarrow> int" where
  \<comment> \<open>\<open>count, _ := strconv.Atoi(os.Getenv("MINIMUM_MASTER_NODES"))\<close>; an unset variable
      reads as the empty string\<close>
  "quorum_target v = fst (Atoi v)"

definition main_tail :: "(nat \<Rightarrow> tick) \<Rightarrow> config \<Rightarrow> (panic + unit) \<times> string" where
  \<comment> \<open>main from the loop on: poll, then \<open>formatOutput(hosts, serviceName)\<close>\<close>
  "main_tail env cfg = formatOutput (res_hosts (poll env cfg)) (serviceName cfg) []"

subsection \<open>Example inputs for the concrete runs\<close>

definition example_endpoints :: Endpoints where
  "example_endpoints =
     \<lparr>Subsets = [\<lparr>Addresses = [\<lparr>IP = ''10.0.0.1'', Hostname = ''web-0''\<rparr>],
                  NotReadyAddresses = []\<rparr>]\<rparr>"

definition example_config :: "int \<Rightarrow> config" where
  "example_config n =
     \<lparr>namespaceName = ''ns'', serviceName = ''svc'', domainName = ''local'', count = n\<rparr>"

definition failing :: "nat \<Rightarrow> tick" where
  \<comment> \<open>a fetch that fails after the given time; the sleep is exact\<close>
  "failing d = \<lparr>fetched = Inl FetchError, fetch_ns = d, oversleep_ns = 0\<rparr>"

definition answering :: "nat \<Rightarrow> tick" where
  \<comment> \<open>a fetch that returns the example endpoints after the given time\<close>
  "answering d = \<lparr>fetched = Inr example_endpoints, fetch_ns = d, oversleep_ns = 0\<rparr>"

section \<open>getNodeIndex: what the pattern matches\<close>

lemma not_word_dash: "\<not> isWord CHR ''-''"
  by (simp add: isWord_def)

lemma rev_upt_Suc_Suc: "rev [0..<Suc (Suc n)] = map Suc (rev [0..<Suc n]) @ [0]"
proof -
  have "[0..<Suc (Suc n)] = 0 # map Suc [0..<Suc n]"
    by (simp only: upt_conv_Cons[of 0 "Suc (Suc n)"] map_Suc_upt)
  then show ?thesis by (simp only: rev.simps rev_map)
qed

lemma rmatch_star_word:
  "rmatch (Star WordChar) (p, s, c) =
     map (\<lambda>k. (p + k, drop k s, c)) (rev [0..<Suc (length (takeWhile isWord s))])"
proof (induction s arbitrary: p)
  case Nil
  show ?case by simp
next
  case (Cons x xs)
  show ?case
  proof (cases "isWord x")
    case True
    have "rmatch (Star WordChar) (p, x # xs, c) =
            rmatch (Star WordChar) (Suc p, xs, c) @ [(p, x # xs, c)]"
      using True by simp
    also have "\<dots> = map (\<lambda>k. (Suc p + k, drop k xs, c))
                        (rev [0..<Suc (length (takeWhile isWord xs))]) @ [(p, x # xs, c)]"
      by (simp only: Cons.IH)
    also have "\<dots> = map (\<lambda>k. (p + k, drop k (x # xs), c))
                        (rev [0..<Suc (Suc (length (takeWhile isWord xs)))])"
      by (simp only: rev_upt_Suc_Suc) (simp add: comp_def)
    finally show ?thesis using True by simp
  next
    case False
    then show ?thesis by simp
  qed
qed

lemma lit_dash_inside_word:
  assumes "k < length (takeWhile isWord s)"
  shows "rmatch (Lit CHR ''-'') (k, drop k s, c) = []"
proof -
  have k: "k < length s"
    using assms length_takeWhile_le[of isWord s] by simp
  have "takeWhile isWord s ! k \<in> set (takeWhile isWord s)"
    using assms by simp
  then have w: "isWord (takeWhile isWord s ! k)"
    by (rule set_takeWhileD[THEN conjunct2])
  have "takeWhile isWord s ! k = s ! k"
    using assms by (rule takeWhile_nth)
  with w have "s ! k \<noteq> CHR ''-''"
    using not_word_dash by auto
  moreover have "drop k s = s ! k # drop (Suc k) s"
    using k by (simp add: Cons_nth_drop_Suc)
  ultimately show ?thesis by simp
qed

lemma concat_inside_word:
  "concat (map (\<lambda>k. rmatch (Lit CHR ''-'') (k, drop k s, c k))
               (rev [0..<length (takeWhile isWord s)])) = []"
  by (simp add: lit_dash_inside_word del: rmatch.simps)

lemma rmatch_nodeRe_start:
  "rmatch nodeRe (0, s, []) =
     (case dropWhile isWord s of
        x # d # rest \<Rightarrow>
          if x = CHR ''-'' \<and> isDigit d
          then [(length (takeWhile isWord s) + 2, rest,
                 [(2, [d]), (1, takeWhile isWord s)])]
          else []
      | _ \<Rightarrow> [])"
proof -
  let ?n = "length (takeWhile isWord s)"
  have g1: "rmatch (Group 1 (Cat BeginText (Star WordChar))) (0, s, []) =
              map (\<lambda>k. (k, drop k s, [(1, take k s)])) (rev [0..<Suc ?n])"
    by (simp add: rmatch_star_word comp_def del: upt_Suc rmatch.simps(5))
  have dash: "concat (map (rmatch (Lit CHR ''-''))
                (rmatch (Group 1 (Cat BeginText (Star WordChar))) (0, s, []))) =
              rmatch (Lit CHR ''-'') (?n, drop ?n s, [(1, take ?n s)])"
    using concat_inside_word[of s "\<lambda>k. [(1, take k s)]"]
    by (simp only: g1) (simp add: comp_def)
  have tk: "take ?n s = takeWhile isWord s"
    by (simp add: takeWhile_eq_take[symmetric])
  have dr: "drop ?n s = dropWhile isWord s"
    by (simp add: dropWhile_eq_drop[symmetric])
  have "rmatch nodeRe (0, s, []) =
          concat (map (rmatch (Group 2 DigitChar))
            (rmatch (Lit CHR ''-'') (?n, dropWhile isWord s, [(1, takeWhile isWord s)])))"
    unfolding nodeRe_def
    by (simp only: rmatch.simps(6)[of _ _ 0 s "[]"] dash tk dr)
  then show ?thesis
    by (simp split: list.split del: dropWhile_eq_Nil_conv)
qed

lemma rmatch_nodeRe_later: "0 < p \<Longrightarrow> rmatch nodeRe (p, s, []) = []"
  by (simp add: nodeRe_def)

lemma search_nodeRe_later: "0 < p \<Longrightarrow> search nodeRe 2 p s = []"
  by (induction s arbitrary: p) (simp_all add: match_here_def rmatch_nodeRe_later)

lemma upt_1_3: "[Suc 0..<3] = [Suc 0, 2]"
  by (simp add: upt_rec)

lemma take_past_takeWhile:
  "take (length (takeWhile P s) + k) s = takeWhile P s @ take k (dropWhile P s)"
proof -
  have "take (length (takeWhile P s) + k) (takeWhile P s @ dropWhile P s) =
          takeWhile P s @ take k (dropWhile P s)"
    by (simp del: takeWhile_dropWhile_id)
  then show ?thesis by (simp only: takeWhile_dropWhile_id)
qed

lemma match_here_nodeRe:
  "match_here nodeRe 2 0 s =
     (case dropWhile isWord s of
        x # d # rest \<Rightarrow>
          if x = CHR ''-'' \<and> isDigit d
          then Some [takeWhile isWord s @ [CHR ''-'', d], takeWhile isWord s, [d]]
          else None
      | _ \<Rightarrow> None)"
proof (cases "dropWhile isWord s")
  case Nil
  then show ?thesis
    by (simp add: match_here_def rmatch_nodeRe_start del: dropWhile_eq_Nil_conv)
next
  case (Cons x r)
  note outer = Cons
  show ?thesis
  proof (cases r)
    case Nil
    with outer show ?thesis
      by (simp add: match_here_def rmatch_nodeRe_start)
  next
    case (Cons d rest)
    have "take (length (takeWhile isWord s) + 2) s = takeWhile isWord s @ [x, d]"
      using take_past_takeWhile[of isWord s 2] by (simp add: outer Cons)
    with outer Cons show ?thesis
      by (simp add: match_here_def rmatch_nodeRe_start upt_1_3 del: upt_Suc)
  qed
qed

lemma FindStringSubmatch_nodeRe:
  "FindStringSubmatch nodeRe 2 s =
     (case dropWhile isWord s of
        x # d # rest \<Rightarrow>
          if x = CHR ''-'' \<and> isDigit d
          then [takeWhile isWord s @ [CHR ''-'', d], takeWhile isWord s, [d]]
          else []
      | _ \<Rightarrow> [])"
proof (cases s)
  case Nil
  then show ?thesis
    by (simp add: FindStringSubmatch_def match_here_def nodeRe_def)
next
  case (Cons x xs)
  have "FindStringSubmatch nodeRe 2 s =
          (case match_here nodeRe 2 0 s of Some m \<Rightarrow> m | None \<Rightarrow> [])"
    by (simp add: FindStringSubmatch_def Cons search_nodeRe_later split: option.split)
  then show ?thesis
    by (simp add: match_here_nodeRe split: list.split del: dropWhile_eq_Nil_conv)
qed

lemma Atoi_digit: "isDigit d \<Longrightarrow> Atoi [d] = (int (digit_val d), None)"
proof -
  assume d: "isDigit d"
  then have 1: "d \<noteq> CHR ''-''" and 2: "d \<noteq> CHR ''+''"
    by (auto simp: isDigit_def)
  have small: "digit_val d \<le> 9"
    using d unfolding isDigit_def digit_val_def by linarith
  have 3: "parse_uint_loop [d] 0 = (digit_val d, None)"
    using small by (simp add: d maxUint64_def)
  have 4: "\<not> maxInt64 + 1 \<le> int (digit_val d)"
    using small by (simp add: maxInt64_def)
  show ?thesis
    using 1 2 4 by (simp add: Atoi_def ParseInt_def ParseUint_def 3 del: parse_uint_loop.simps)
qed

lemma getNodeIndex_eq:
  "getNodeIndex node =
     (case dropWhile isWord node of
        x # d # rest \<Rightarrow>
          if x = CHR ''-'' \<and> isDigit d then Inr (Itoa (int (digit_val d) + 1))
          else Inl IndexOutOfRange
      | _ \<Rightarrow> Inl IndexOutOfRange)"
proof -
  have small: "\<And>d. isDigit d \<Longrightarrow> incr (int (digit_val d)) = int (digit_val d) + 1"
    by (auto simp: incr_def isDigit_def digit_val_def maxInt64_def)
  show ?thesis
    by (simp add: getNodeIndex_def FindStringSubmatch_nodeRe index_at_def Atoi_digit small
        split: list.split del: dropWhile_eq_Nil_conv)
qed

lemma pattern_iff:
  "(\<exists>w d rest. node = w @ CHR ''-'' # d # rest \<and> (\<forall>c\<in>set w. isWord c) \<and> isDigit d) \<longleftrightarrow>
   (case dropWhile isWord node of x # d # rest \<Rightarrow> x = CHR ''-'' \<and> isDigit d | _ \<Rightarrow> False)"
proof
  assume "\<exists>w d rest. node = w @ CHR ''-'' # d # rest \<and> (\<forall>c\<in>set w. isWord c) \<and> isDigit d"
  then obtain w d rest where
    n: "node = w @ CHR ''-'' # d # rest" and w: "\<forall>c\<in>set w. isWord c" and d: "isDigit d"
    by blast
  have "dropWhile isWord node = CHR ''-'' # d # rest"
    using w not_word_dash by (simp add: n dropWhile_append2)
  with d show "case dropWhile isWord node of x # d # rest \<Rightarrow> x = CHR ''-'' \<and> isDigit d | _ \<Rightarrow> False"
    by simp
next
  assume c: "case dropWhile isWord node of x # d # rest \<Rightarrow> x = CHR ''-'' \<and> isDigit d | _ \<Rightarrow> False"
  then obtain d rest where dr: "dropWhile isWord node = CHR ''-'' # d # rest" and d: "isDigit d"
    by (auto split: list.splits simp del: dropWhile_eq_Nil_conv)
  have "node = takeWhile isWord node @ CHR ''-'' # d # rest"
    using takeWhile_dropWhile_id[of isWord node] dr by simp
  moreover have "\<forall>c\<in>set (takeWhile isWord node). isWord c"
    by (auto dest: set_takeWhileD)
  ultimately show "\<exists>w d rest. node = w @ CHR ''-'' # d # rest \<and> (\<forall>c\<in>set w. isWord c) \<and> isDigit d"
    using d by blast
qed

text \<open>
  C3. A hostname that does not start with word characters, a dash and a digit makes
  \<open>getNodeIndex\<close> fatal: the pattern finds nothing, \<open>FindStringSubmatch\<close> returns
  the nil slice (no capture group), and the unchecked index 2 into it panics.
\<close>

theorem getNodeIndex_mismatch_panics:
  assumes "\<not> (\<exists>w d rest. node = w @ CHR ''-'' # d # rest \<and> (\<forall>c\<in>set w. isWord c) \<and> isDigit d)"
  shows "FindStringSubmatch nodeRe 2 node = [] \<and> getNodeIndex node = Inl IndexOutOfRange"
  using assms unfolding pattern_iff
  by (auto simp: getNodeIndex_eq FindStringSubmatch_nodeRe split: list.splits
      simp del: dropWhile_eq_Nil_conv)

theorem getNodeIndex_mismatch_panics_witness:
  "\<not> (\<exists>w d rest. ''malformed'' = w @ CHR ''-'' # d # rest \<and> (\<forall>c\<in>set w. isWord c) \<and> isDigit d)
   \<and> FindStringSubmatch nodeRe 2 ''malformed'' = []
   \<and> getNodeIndex ''malformed'' = Inl IndexOutOfRange"
proof -
  have h: "\<not> (\<exists>w d rest. ''malformed'' = w @ CHR ''-'' # d # rest \<and> (\<forall>c\<in>set w. isWord c) \<and> isDigit d)"
    unfolding pattern_iff by (simp add: isWord_def)
  show ?thesis
    using h getNodeIndex_mismatch_panics[OF h] by simp
qed

text \<open>
  C4. On a hostname made of a word, a dash and a digit \<open>d\<close> (and whatever follows),
  \<open>getNodeIndex\<close> returns the decimal text of \<open>d + 1\<close>.
\<close>

theorem getNodeIndex_word_digit:
  assumes "\<forall>c\<in>set w. isWord c" and "isDigit d"
  shows "getNodeIndex (w @ CHR ''-'' # d # rest) = Inr (Itoa (int (digit_val d) + 1))"
proof -
  have "dropWhile isWord (w @ CHR ''-'' # d # rest) = CHR ''-'' # d # rest"
    using assms(1) not_word_dash by (simp add: dropWhile_append2)
  then show ?thesis
    using assms(2) by (simp add: getNodeIndex_eq)
qed

lemma utoa_small: "n < 10 \<Longrightarrow> utoa n = [digit_char n]"
  by (simp add: utoa.simps[of n])

lemma Itoa_small: "Itoa 4 = ''4''" "Itoa 10 = ''10''" "Itoa 1 = ''1''"
  by (simp_all add: Itoa_def utoa.simps[of 10] utoa_small digit_char_def)


theorem getNodeIndex_word_digit_witness:
  "isWord CHR ''s'' \<and> isWord CHR ''v'' \<and> isWord CHR ''c'' \<and> isDigit CHR ''3'' \<and>
   getNodeIndex ''svc-3'' = Inr ''4''"
proof -
  have s: "isWord CHR ''s''" and v: "isWord CHR ''v''" and c: "isWord CHR ''c''"
    by (simp_all add: isWord_def)
  have w: "\<forall>c\<in>set ''svc''. isWord c"
    using s v c by simp
  have d: "isDigit CHR ''3''" by (simp add: isDigit_def)
  have i: "Itoa (int (digit_val CHR ''3'') + 1) = ''4''"
    by (simp add: digit_val_def Itoa_small)
  have "getNodeIndex ''svc-3'' = Inr ''4''"
    using getNodeIndex_word_digit[OF w d, of "[]"] by (simp only: i append.simps)
  with s v c d show ?thesis
    by (intro conjI)
qed

lemma getNodeIndex_zk0: "getNodeIndex ''zk-0'' = Inr ''1''"
  by (simp add: getNodeIndex_eq isWord_def isDigit_def digit_val_def Itoa_small)

lemma getNodeIndex_zk9: "getNodeIndex ''zk-9'' = Inr ''10''"
  by (simp add: getNodeIndex_eq isWord_def isDigit_def digit_val_def Itoa_small)

text \<open>
  C5, as amended. \<open>getNodeIndex("zk-0")\<close> is \<open>"1"\<close> and \<open>getNodeIndex("zk-9")\<close> is
  \<open>"10"\<close>: the digit 9 plus one has two decimal digits.
\<close>

theorem getNodeIndex_examples:
  "getNodeIndex ''zk-0'' = Inr ''1'' \<and> getNodeIndex ''zk-9'' = Inr ''10''"
  by (simp add: getNodeIndex_zk0 getNodeIndex_zk9)

text \<open>
  C5, as stated, fails: \<open>getNodeIndex("zk-9")\<close> is not \<open>"2"\<close>.
\<close>

theorem getNodeIndex_zk9_counterexample:
  "\<not> (getNodeIndex ''zk-0'' = Inr ''1'' \<and> getNodeIndex ''zk-9'' = Inr ''2'')"
  by (simp add: getNodeIndex_zk9)

section \<open>getHostnames and getFqdn\<close>

lemma foldl_snoc_map: "foldl (\<lambda>acc x. acc @ [f x]) a xs = a @ map f xs"
  by (induction xs arbitrary: a) simp_all

lemma getFqdn_map:
  "getFqdn hostnames ns svc dn =
     map (\<lambda>hostname. hostname @ ''.'' @ svc @ ''.'' @ ns @ ''.'' @ dn)
         hostnames"
  unfolding getFqdn_def by (simp only: foldl_snoc_map append_Nil)


text \<open>
  C7. \<open>getFqdn\<close> returns one name for each hostname, in the same order, the
  \<open>i\<close>-th being the \<open>i\<close>-th hostname followed by a dot and the service name, a dot and
  the namespace name, a dot and the domain name. It checks nothing: it is total, and empty
  components are concatenated like any other.
\<close>

theorem getFqdn_elements:
  "length (getFqdn H ns svc dn) = length H \<and>
   (\<forall>i<length H. getFqdn H ns svc dn ! i =
       H ! i @ ''.'' @ svc @ ''.'' @ ns @ ''.'' @ dn) \<and>
   getFqdn H ns svc dn =
     map (\<lambda>h. h @ ''.'' @ svc @ ''.'' @ ns @ ''.'' @ dn) H"
  by (simp add: getFqdn_map)

theorem getFqdn_elements_witness:
  "length (getFqdn [''a'', ''''] [] [] []) = 2 \<and>
   getFqdn [''a'', ''''] [] [] [] ! 0 = ''a...'' \<and>
   getFqdn [''a'', ''''] [] [] [] ! 1 = ''...''"
proof -
  note t = getFqdn_elements[of "[''a'', '''']" "[]" "[]" "[]"]
  have l: "length (getFqdn [''a'', ''''] [] [] []) = 2"
    using t by simp
  have 0: "getFqdn [''a'', ''''] [] [] [] ! 0 = ''a...''"
    using t[THEN conjunct2, THEN conjunct1, rule_format, of 0] by simp
  have 1: "getFqdn [''a'', ''''] [] [] [] ! 1 = ''...''"
    using t[THEN conjunct2, THEN conjunct1, rule_format, of 1] by simp
  from l 0 1 show ?thesis by simp
qed

section \<open>formatOutput\<close>

lemma doPrintf0_plain: "CHR ''%'' \<notin> set s \<Longrightarrow> doPrintf0 s = s"
proof -
  assume "CHR ''%'' \<notin> set s"
  then have "dropWhile (\<lambda>c. c \<noteq> CHR ''%'') s = []"
    by auto
  then show ?thesis
    by (simp add: doPrintf0.simps[of s] del: dropWhile_eq_Nil_conv)
qed

lemma formatOutput_default_plain:
  assumes "format \<noteq> ''zookeeper''" and "format \<noteq> ''elasticsearch''"
    and "CHR ''%'' \<notin> set (Join result '', '')"
  shows "formatOutput result format out = (Inr (), out @ Join result '', '')"
  using assms by (simp add: formatOutput_def doPrintf0_plain)

lemma directive_local: "directive ''local'' = (''%!l(MISSING)'', ''ocal'', False)"
  by (simp add: directive_def isFlag_def argNumber_def width_stage_def prec_stage_def
      verb_stage_def parsenum_def isDigit_def rune_len_def)

lemma doPrintf0_cluster_local:
  "doPrintf0 ''web-0.svc.ns.cluster%local'' = ''web-0.svc.ns.cluster%!l(MISSING)ocal''"
proof -
  have "doPrintf0 ''ocal'' = ''ocal''"
    by (simp add: doPrintf0_plain)
  then show ?thesis
    by (simp add: doPrintf0.simps[of "''web-0.svc.ns.cluster%local''"] directive_local)
qed

text \<open>
  C6. With any other selector \<open>formatOutput\<close> passes the joined names to \<open>Printf\<close>
  as the format, not as an operand. A joined text without a percent sign is written as it
  is (\<open>formatOutput_default_plain\<close>); one with a percent sign is not: the name
  \<open>web-0.svc.ns.cluster%local\<close> is written with the error text of the verb \<open>%l\<close>
  in it.
\<close>

theorem formatOutput_default_percent:
  "formatOutput [''web-0.svc.ns.cluster%local''] ''svc'' [] =
     (Inr (), ''web-0.svc.ns.cluster%!l(MISSING)ocal'') \<and>
   Join [''web-0.svc.ns.cluster%local''] '', '' = ''web-0.svc.ns.cluster%local''"
  by (simp add: formatOutput_def doPrintf0_cluster_local)








section \<open>The polling loop\<close>

lemma poll_loop_done:
  "\<not> el < 5 * Minute \<Longrightarrow>
   poll_loop env cfg i el hosts =
     \<lparr>res_hosts = hosts, res_fetches = i, res_elapsed = el, res_broke = False\<rparr>"
  by (simp add: poll_loop.simps[of env cfg i el hosts])

lemma poll_loop_fail:
  "el < 5 * Minute \<Longrightarrow> isl (fetched (env i)) \<Longrightarrow>
   poll_loop env cfg i el hosts =
     poll_loop env cfg (Suc i) (el + fetch_ns (env i) + (10 * Second + oversleep_ns (env i))) hosts"
  by (cases "fetched (env i)") (simp_all add: poll_loop.simps[of env cfg i el hosts])

lemma poll_loop_quorum:
  "el < 5 * Minute \<Longrightarrow> fetched (env i) = Inr eps \<Longrightarrow>
   quorum_reached cfg (fqdns_of cfg eps) \<Longrightarrow>
   poll_loop env cfg i el hosts =
     \<lparr>res_hosts = fqdns_of cfg eps, res_fetches = Suc i,
      res_elapsed = el + fetch_ns (env i), res_broke = True\<rparr>"
  by (simp add: poll_loop.simps[of env cfg i el hosts])

lemma poll_loop_retry:
  "el < 5 * Minute \<Longrightarrow> fetched (env i) = Inr eps \<Longrightarrow>
   \<not> (quorum_reached cfg (fqdns_of cfg eps)) \<Longrightarrow>
   poll_loop env cfg i el hosts =
     poll_loop env cfg (Suc i) (el + fetch_ns (env i) + (10 * Second + oversleep_ns (env i)))
       (fqdns_of cfg eps)"
  by (simp add: poll_loop.simps[of env cfg i el hosts])

lemma poll_loop_cases [case_names expired failed reached short]:
  assumes "\<And>i el hosts. \<not> el < 5 * Minute \<Longrightarrow> P i el hosts"
    and "\<And>i el hosts. el < 5 * Minute \<Longrightarrow> isl (fetched (env i)) \<Longrightarrow>
           P (Suc i) (el + fetch_ns (env i) + (10 * Second + oversleep_ns (env i))) hosts \<Longrightarrow>
           P i el hosts"
    and "\<And>i el hosts eps. el < 5 * Minute \<Longrightarrow> fetched (env i) = Inr eps \<Longrightarrow>
           quorum_reached cfg (fqdns_of cfg eps) \<Longrightarrow>
           P i el hosts"
    and "\<And>i el hosts eps. el < 5 * Minute \<Longrightarrow> fetched (env i) = Inr eps \<Longrightarrow>
           \<not> (quorum_reached cfg (fqdns_of cfg eps)) \<Longrightarrow>
           P (Suc i) (el + fetch_ns (env i) + (10 * Second + oversleep_ns (env i)))
             (fqdns_of cfg eps) \<Longrightarrow>
           P i el hosts"
  shows "P i el hosts"
proof (induction "5 * Minute - el" arbitrary: i el hosts rule: less_induct)
  case less
  show ?case
  proof (cases "el < 5 * Minute")
    case False
    then show ?thesis by (rule assms(1))
  next
    case True
    let ?el' = "el + fetch_ns (env i) + (10 * Second + oversleep_ns (env i))"
    have smaller: "5 * Minute - ?el' < 5 * Minute - el"
      using True by (simp add: Second_def Minute_def)
    show ?thesis
    proof (cases "fetched (env i)")
      case (Inl e)
      then have f: "isl (fetched (env i))" by simp
      show ?thesis
        by (rule assms(2)[OF True f less[OF smaller]])
    next
      case (Inr eps)
      show ?thesis
      proof (cases "quorum_reached cfg (fqdns_of cfg eps)")
        case q: True
        show ?thesis by (rule assms(3)[OF True Inr q])
      next
        case q: False
        show ?thesis by (rule assms(4)[OF True Inr q less[OF smaller]])
      qed
    qed
  qed
qed

lemma fetches_ge: "i \<le> res_fetches (poll_loop env cfg i el hosts)"
proof (induction i el hosts rule: poll_loop_cases[of _ env cfg])
  case (expired i el hosts)
  then show ?case by (simp add: poll_loop_done)
next
  case (failed i el hosts)
  then show ?case by (simp add: poll_loop_fail)
next
  case (reached i el hosts eps)
  then show ?case by (simp add: poll_loop_quorum)
next
  case (short i el hosts eps)
  then show ?case by (simp add: poll_loop_retry)
qed

lemma fetches_gt: "el < 5 * Minute \<Longrightarrow> i < res_fetches (poll_loop env cfg i el hosts)"
proof (cases "fetched (env i)")
  case (Inl e)
  assume el: "el < 5 * Minute"
  have "isl (fetched (env i))" using Inl by simp
  then show ?thesis
    using fetches_ge[of "Suc i" env cfg
        "el + fetch_ns (env i) + (10 * Second + oversleep_ns (env i))" hosts]
    by (simp add: poll_loop_fail[OF el])
next
  case (Inr eps)
  assume el: "el < 5 * Minute"
  show ?thesis
  proof (cases "quorum_reached cfg (fqdns_of cfg eps)")
    case True
    then show ?thesis by (simp add: poll_loop_quorum[of el env i eps cfg hosts] el Inr)
  next
    case False
    then show ?thesis
      using fetches_ge[of "Suc i" env cfg
          "el + fetch_ns (env i) + (10 * Second + oversleep_ns (env i))" "fqdns_of cfg eps"]
      by (simp add: poll_loop_retry[of el env i eps cfg hosts] el Inr)
  qed
qed


lemma broke_facts:
  "res_broke (poll_loop env cfg i el hosts) \<Longrightarrow>
   i < res_fetches (poll_loop env cfg i el hosts) \<and>
   (\<exists>eps. fetched (env (res_fetches (poll_loop env cfg i el hosts) - 1)) = Inr eps \<and>
          res_hosts (poll_loop env cfg i el hosts) = fqdns_of cfg eps \<and>
          quorum_reached cfg (fqdns_of cfg eps))"
proof (induction i el hosts rule: poll_loop_cases[of _ env cfg])
  case (expired i el hosts)
  then show ?case by (simp add: poll_loop_done)
next
  case (failed i el hosts)
  then show ?case by (auto simp: poll_loop_fail dest: Suc_lessD)
next
  case (reached i el hosts eps)
  then show ?case by (simp add: poll_loop_quorum[of el env i eps cfg hosts])
next
  case (short i el hosts eps)
  then show ?case
    by (auto simp: poll_loop_retry[of el env i eps cfg hosts] dest: Suc_lessD)
qed



lemma timing:
  "start_time env i = el \<Longrightarrow>
   (\<forall>j. i \<le> j \<and> j < res_fetches (poll_loop env cfg i el hosts) \<longrightarrow> start_time env j < 5 * Minute) \<and>
   res_elapsed (poll_loop env cfg i el hosts) =
     (if res_broke (poll_loop env cfg i el hosts)
      then start_time env (res_fetches (poll_loop env cfg i el hosts) - 1) +
           fetch_ns (env (res_fetches (poll_loop env cfg i el hosts) - 1))
      else start_time env (res_fetches (poll_loop env cfg i el hosts))) \<and>
   (\<not> res_broke (poll_loop env cfg i el hosts) \<longrightarrow>
      5 * Minute \<le> res_elapsed (poll_loop env cfg i el hosts))"
proof (induction i el hosts rule: poll_loop_cases[of _ env cfg])
  case (expired i el hosts)
  then show ?case by (simp add: poll_loop_done)
next
  case (failed i el hosts)
  have "\<And>j. i \<le> j \<longleftrightarrow> j = i \<or> Suc i \<le> j" by auto
  then show ?case
    using failed by (auto simp: poll_loop_fail)
next
  case (reached i el hosts eps)
  then show ?case
    by (auto simp: poll_loop_quorum[of el env i eps cfg hosts] less_Suc_eq_le)
next
  case (short i el hosts eps)
  have "\<And>j. i \<le> j \<longleftrightarrow> j = i \<or> Suc i \<le> j" by auto
  then show ?case
    using short by (auto simp: poll_loop_retry[of el env i eps cfg hosts])
qed

lemma start_time_ge: "j * (10 * Second) \<le> start_time env j"
  by (induction j) simp_all

lemma start_before_deadline: "start_time env j < 5 * Minute \<Longrightarrow> j < 30"
  using start_time_ge[of j env] by (simp add: Minute_def Second_def)

lemma kept_hosts:
  "hosts_upto cfg env i = hosts \<Longrightarrow>
   res_hosts (poll_loop env cfg i el hosts) =
     hosts_upto cfg env (res_fetches (poll_loop env cfg i el hosts))"
proof (induction i el hosts rule: poll_loop_cases[of _ env cfg])
  case (expired i el hosts)
  then show ?case by (simp add: poll_loop_done)
next
  case (failed i el hosts)
  from failed.hyps(2) obtain e where "fetched (env i) = Inl e"
    by (cases "fetched (env i)") auto
  then show ?case
    using failed by (simp add: poll_loop_fail)
next
  case (reached i el hosts eps)
  then show ?case by (simp add: poll_loop_quorum[of el env i eps cfg hosts])
next
  case (short i el hosts eps)
  then show ?case by (simp add: poll_loop_retry[of el env i eps cfg hosts])
qed

lemma poll_ran: "0 < res_fetches (poll env cfg)"
  unfolding poll_def by (rule fetches_gt) (simp add: Minute_def Second_def)





lemma no_quorum_nonpositive: "count cfg \<le> 0 \<Longrightarrow> \<not> quorum_reached cfg hosts"
  by (cases hosts) (auto simp: quorum_reached_def)

lemma Atoi_syntax_zero: "snd (Atoi v) = Some ErrSyntax \<Longrightarrow> fst (Atoi v) = 0"
  by (auto simp: Atoi_def ParseInt_def Let_def split: prod.splits if_splits)

subsection \<open>Concrete runs\<close>

lemmas run_defs = poll_def poll_loop.simps Minute_def Second_def failing_def answering_def
  example_config_def example_endpoints_def fqdns_of_def quorum_reached_def getFqdn_def
  getHostnames_def

lemma run_slow_fetches:
  "poll (\<lambda>i. failing Second) (example_config 3) =
     \<lparr>res_hosts = [], res_fetches = 28, res_elapsed = 308 * Second, res_broke = False\<rparr>"
  by (simp add: run_defs)

lemma run_instant_failures:
  "poll (\<lambda>i. failing 0) (example_config 3) =
     \<lparr>res_hosts = [], res_fetches = 30, res_elapsed = 5 * Minute, res_broke = False\<rparr>"
  by (simp add: run_defs)


lemma run_first_answers_only:
  "poll (\<lambda>i. if i = 0 then answering 0 else failing 0) (example_config 2) =
     \<lparr>res_hosts = [''web-0.svc.ns.local''], res_fetches = 30,
      res_elapsed = 5 * Minute, res_broke = False\<rparr>"
  by (simp add: run_defs)

lemma run_target_zero:
  "poll (\<lambda>i. answering 0) (example_config 0) =
     \<lparr>res_hosts = [''web-0.svc.ns.local''], res_fetches = 30,
      res_elapsed = 5 * Minute, res_broke = False\<rparr>"
  by (simp add: run_defs)

lemma Atoi_out_of_range:
  "Atoi ''99999999999999999999'' = (9223372036854775807, Some ErrRange)"
  by (simp add: Atoi_def ParseInt_def ParseUint_def isDigit_def digit_val_def maxUint64_def
      maxInt64_def)

lemma Atoi_three: "Atoi ''three'' = (0, Some ErrSyntax)"
  by (simp add: Atoi_def ParseInt_def ParseUint_def isDigit_def)

section \<open>The polling loop: the claims\<close>



text \<open>
  C2, as amended. Whatever the fetches answer and however long they take, the loop ends:
  it runs at least one and at most 30 iterations, each started less than 5 minutes after
  the loop, and it ends less than 5 minutes plus the last fetch and the last sleep after
  the start of the loop.
\<close>

theorem poll_bounded_ticks:
  "1 \<le> res_fetches (poll env cfg) \<and> res_fetches (poll env cfg) \<le> 30 \<and>
   (\<forall>j<res_fetches (poll env cfg). start_time env j < 5 * Minute) \<and>
   res_elapsed (poll env cfg) <
     5 * Minute + fetch_ns (env (res_fetches (poll env cfg) - 1)) +
     (10 * Second + oversleep_ns (env (res_fetches (poll env cfg) - 1)))"
proof -
  let ?r = "poll env cfg"
  let ?n = "res_fetches ?r"
  have n: "0 < ?n" by (rule poll_ran)
  then obtain m where m: "?n = Suc m"
    by (cases ?n) auto
  have t: "(\<forall>j<?n. start_time env j < 5 * Minute) \<and>
     res_elapsed ?r = (if res_broke ?r then start_time env (?n - 1) + fetch_ns (env (?n - 1))
                       else start_time env ?n)"
    using timing[of env 0 0 cfg "[]"] by (simp add: poll_def)
  then have last: "start_time env m < 5 * Minute"
    using m by simp
  then have "m < 30" by (rule start_before_deadline)
  then have "?n \<le> 30" using m by simp
  moreover have "res_elapsed ?r < 5 * Minute + fetch_ns (env (?n - 1)) +
     (10 * Second + oversleep_ns (env (?n - 1)))"
  proof (cases "res_broke ?r")
    case True
    then have "res_elapsed ?r = start_time env m + fetch_ns (env m)"
      using t by (simp add: m)
    with last show ?thesis by (simp add: m)
  next
    case False
    then have "res_elapsed ?r =
        start_time env m + fetch_ns (env m) + (10 * Second + oversleep_ns (env m))"
      using t by (simp add: m)
    with last show ?thesis by (simp add: m)
  qed
  ultimately show ?thesis
    using n t by simp
qed

theorem poll_bounded_ticks_witness:
  "res_fetches (poll (\<lambda>i. failing 0) (example_config 3)) = 30 \<and>
   start_time (\<lambda>i. failing 0) 29 < 5 * Minute \<and>
   res_elapsed (poll (\<lambda>i. failing 0) (example_config 3)) = 5 * Minute"
proof -
  note t = poll_bounded_ticks[of "\<lambda>i. failing 0" "example_config 3"]
  have n: "res_fetches (poll (\<lambda>i. failing 0) (example_config 3)) = 30"
    by (simp add: run_instant_failures)
  have "start_time (\<lambda>i. failing 0) 29 < 5 * Minute"
    using t[THEN conjunct2, THEN conjunct2, THEN conjunct1, rule_format, of 29]
    by (simp add: n)
  then show ?thesis
    by (simp add: run_instant_failures)
qed

text \<open>
  C2, as stated, fails: when every fetch takes one second and fails, the loop ends 308
  seconds after its start, later than the deadline of 5 minutes.
\<close>

theorem poll_elapsed_counterexample:
  "res_elapsed (poll (\<lambda>i. failing Second) (example_config 3)) = 308 * Second \<and>
   \<not> res_elapsed (poll (\<lambda>i. failing Second) (example_config 3)) \<le> 5 * Minute"
  by (simp add: run_slow_fetches) (simp add: Minute_def Second_def)

text \<open>
  C8. An iteration whose fetch fails goes on to the next check of the deadline with the
  list unchanged; an iteration whose fetch succeeds replaces the list by the one computed
  from that fetch alone. So the list the loop returns is that of the last fetch that
  succeeded, and the initial empty list when none did.
\<close>

theorem failed_fetch_keeps_hosts:
  "(el < 5 * Minute \<and> fetched (env i) = Inl e \<longrightarrow>
      poll_loop env cfg i el hosts =
        poll_loop env cfg (Suc i)
          (el + fetch_ns (env i) + (10 * Second + oversleep_ns (env i))) hosts) \<and>
   (el < 5 * Minute \<and> fetched (env i) = Inr eps \<and>
      \<not> (0 < length (fqdns_of cfg eps) \<and> int (length (fqdns_of cfg eps)) = count cfg) \<longrightarrow>
      poll_loop env cfg i el hosts =
        poll_loop env cfg (Suc i)
          (el + fetch_ns (env i) + (10 * Second + oversleep_ns (env i))) (fqdns_of cfg eps)) \<and>
   (el < 5 * Minute \<and> fetched (env i) = Inr eps \<and>
      0 < length (fqdns_of cfg eps) \<and> int (length (fqdns_of cfg eps)) = count cfg \<longrightarrow>
      res_hosts (poll_loop env cfg i el hosts) = fqdns_of cfg eps) \<and>
   res_hosts (poll env cfg) = hosts_upto cfg env (res_fetches (poll env cfg))"
proof (intro conjI impI)
  assume "el < 5 * Minute \<and> fetched (env i) = Inl e"
  then show "poll_loop env cfg i el hosts =
        poll_loop env cfg (Suc i)
          (el + fetch_ns (env i) + (10 * Second + oversleep_ns (env i))) hosts"
    by (simp add: poll_loop_fail)
next
  assume "el < 5 * Minute \<and> fetched (env i) = Inr eps \<and>
      \<not> (0 < length (fqdns_of cfg eps) \<and> int (length (fqdns_of cfg eps)) = count cfg)"
  then show "poll_loop env cfg i el hosts =
        poll_loop env cfg (Suc i)
          (el + fetch_ns (env i) + (10 * Second + oversleep_ns (env i))) (fqdns_of cfg eps)"
    using poll_loop_retry[of el env i eps cfg hosts] by (simp add: quorum_reached_def)
next
  assume "el < 5 * Minute \<and> fetched (env i) = Inr eps \<and>
      0 < length (fqdns_of cfg eps) \<and> int (length (fqdns_of cfg eps)) = count cfg"
  then show "res_hosts (poll_loop env cfg i el hosts) = fqdns_of cfg eps"
    using poll_loop_quorum[of el env i eps cfg hosts] by (simp add: quorum_reached_def)
next
  show "res_hosts (poll env cfg) = hosts_upto cfg env (res_fetches (poll env cfg))"
    using kept_hosts[of cfg env 0 "[]" 0] by (simp add: poll_def)
qed

theorem failed_fetch_keeps_hosts_witness:
  "10 * Second < 5 * Minute \<and>
   fetched ((\<lambda>i. if i = 0 then answering 0 else failing 0) (1::nat)) = Inl FetchError \<and>
   poll_loop (\<lambda>i. if i = 0 then answering 0 else failing 0) (example_config 2)
       1 (10 * Second) [''web-0.svc.ns.local''] =
     poll_loop (\<lambda>i. if i = 0 then answering 0 else failing 0) (example_config 2)
       2 (20 * Second) [''web-0.svc.ns.local''] \<and>
   res_hosts (poll (\<lambda>i. if i = 0 then answering 0 else failing 0) (example_config 2)) =
     [''web-0.svc.ns.local''] \<and>
   res_fetches (poll (\<lambda>i. if i = 0 then answering 0 else failing 0) (example_config 2)) = 30"
proof -
  let ?env = "\<lambda>i::nat. if i = 0 then answering 0 else failing 0"
  note t = failed_fetch_keeps_hosts[of "10 * Second" ?env 1 FetchError "example_config 2"
      "[''web-0.svc.ns.local'']"]
  have a: "10 * Second < 5 * Minute"
    by (simp add: Minute_def Second_def)
  have b: "fetched (?env 1) = Inl FetchError"
    by (simp add: failing_def)
  have "poll_loop ?env (example_config 2) 1 (10 * Second) [''web-0.svc.ns.local''] =
        poll_loop ?env (example_config 2) (Suc 1)
          (10 * Second + fetch_ns (?env 1) + (10 * Second + oversleep_ns (?env 1)))
          [''web-0.svc.ns.local'']"
    using t[THEN conjunct1] a b by blast
  then have c: "poll_loop ?env (example_config 2) 1 (10 * Second) [''web-0.svc.ns.local''] =
        poll_loop ?env (example_config 2) 2 (20 * Second) [''web-0.svc.ns.local'']"
    by (simp add: failing_def numeral_2_eq_2)
  have d: "res_hosts (poll ?env (example_config 2)) = [''web-0.svc.ns.local'']"
    by (simp add: run_first_answers_only)
  have e: "res_fetches (poll ?env (example_config 2)) = 30"
    by (simp add: run_first_answers_only)
  from a b c d e show ?thesis
    by (intro conjI)
qed

text \<open>
  C10, as amended. An unset variable, and one \<open>Atoi\<close> rejects with a syntax error,
  give the target 0. With a target of zero or less the loop never leaves through
  \<open>break\<close>: it ends at a check of the deadline, 5 minutes or more after its start.
\<close>

theorem nonpositive_target_never_breaks:
  "quorum_target [] = 0 \<and>
   (snd (Atoi v) = Some ErrSyntax \<longrightarrow> quorum_target v = 0) \<and>
   (count cfg \<le> 0 \<longrightarrow>
      \<not> res_broke (poll env cfg) \<and> 5 * Minute \<le> res_elapsed (poll env cfg) \<and>
      res_elapsed (poll env cfg) = start_time env (res_fetches (poll env cfg)))"
proof (intro conjI impI)
  show "quorum_target [] = 0"
    by (simp add: quorum_target_def Atoi_def ParseInt_def)
next
  assume "snd (Atoi v) = Some ErrSyntax"
  then show "quorum_target v = 0"
    by (simp add: quorum_target_def Atoi_syntax_zero)
next
  assume c: "count cfg \<le> 0"
  show nb: "\<not> res_broke (poll env cfg)"
    using broke_facts[of env cfg 0 0 "[]"] no_quorum_nonpositive[OF c]
    by (auto simp: poll_def)
  show "5 * Minute \<le> res_elapsed (poll env cfg)"
    using timing[of env 0 0 cfg "[]"] nb by (simp add: poll_def)
  show "res_elapsed (poll env cfg) = start_time env (res_fetches (poll env cfg))"
    using timing[of env 0 0 cfg "[]"] nb by (simp add: poll_def)
qed

theorem nonpositive_target_never_breaks_witness:
  "count (example_config 0) \<le> 0 \<and>
   \<not> res_broke (poll (\<lambda>i. answering 0) (example_config 0)) \<and>
   res_fetches (poll (\<lambda>i. answering 0) (example_config 0)) = 30 \<and>
   5 * Minute \<le> res_elapsed (poll (\<lambda>i. answering 0) (example_config 0)) \<and>
   snd (Atoi ''three'') = Some ErrSyntax \<and> quorum_target ''three'' = 0"
proof -
  note t = nonpositive_target_never_breaks[of "''three''" "example_config 0" "\<lambda>i. answering 0"]
  have c: "count (example_config 0) \<le> 0"
    by (simp add: example_config_def)
  have s: "snd (Atoi ''three'') = Some ErrSyntax"
    by (simp add: Atoi_three)
  have q: "quorum_target ''three'' = 0"
    using t[THEN conjunct2, THEN conjunct1] s by blast
  have r: "\<not> res_broke (poll (\<lambda>i. answering 0) (example_config 0)) \<and>
           5 * Minute \<le> res_elapsed (poll (\<lambda>i. answering 0) (example_config 0))"
    using t[THEN conjunct2, THEN conjunct2] c by blast
  show ?thesis
    using c s q r by (simp add: run_target_zero)
qed

text \<open>
  C10, as stated, fails for a value out of range: \<open>Atoi\<close> reports an error for twenty
  nines and returns the largest \<open>int\<close>, not 0.
\<close>

theorem unparsable_target_counterexample:
  "snd (Atoi ''99999999999999999999'') = Some ErrRange \<and>
   quorum_target ''99999999999999999999'' = 9223372036854775807 \<and>
   quorum_target ''99999999999999999999'' \<noteq> 0"
  by (simp add: quorum_target_def Atoi_out_of_range)

end
